theory Spec2Isabelle
  imports Complex_Main "HOL-Library.Word"
begin

section \<open>Data model\<close>

text \<open>
  The two scripts work on Python \<open>str\<close> (capture lines, hex text) and \<open>bytes\<close>
  (decoded body, blocks). Text is a \<open>string\<close>; a \<open>char\<close> stands for the code point of the
  same number, so the model covers the code points 0..255. Bytes are 8-bit words.
\<close>

type_synonym byte = "8 word"

text \<open>Python's \<open>xs[i:j]\<close> for \<open>0 \<le> i\<close>: out-of-range bounds are clipped, never an error.\<close>

definition slice :: "'a list \<Rightarrow> nat \<Rightarrow> nat \<Rightarrow> 'a list" where
  "slice xs i j = take (j - i) (drop i xs)"

text \<open>\<open>range(start, stop, step)\<close> for a positive step.\<close>

definition range3 :: "nat \<Rightarrow> nat \<Rightarrow> nat \<Rightarrow> nat list" where
  "range3 start stop step =
     map (\<lambda>k. start + k * step) [0 ..< (stop - start + step - 1) div step]"

subsection \<open>Whitespace and \<open>str.strip()\<close>\<close>

text \<open>
  \<open>str.isspace\<close> on the code points below 256: TAB, LF, VT, FF, CR, the four separators
  FS/GS/RS/US, space, NEL and the no-break space.
\<close>

definition isspace :: "char \<Rightarrow> bool" where
  "isspace c = (of_char c \<in> {9, 10, 11, 12, 13, 28, 29, 30, 31, 32, 133, 160 :: nat})"

definition strip :: "string \<Rightarrow> string" where
  "strip s = rev (dropWhile isspace (rev (dropWhile isspace s)))"

subsection \<open>Hex text\<close>

text \<open>\<open>bytes.hex()\<close>: two lower-case digits per byte.\<close>

definition hex_digit :: "nat \<Rightarrow> char" where
  "hex_digit n = ''0123456789abcdef'' ! n"

definition hex_byte :: "byte \<Rightarrow> string" where
  "hex_byte b = [hex_digit (unat b div 16), hex_digit (unat b mod 16)]"

definition hex :: "byte list \<Rightarrow> string" where
  "hex bs = concat (map hex_byte bs)"

text \<open>\<open>str.upper()\<close>, on the ASCII letters (it is only ever applied to the output of \<open>hex\<close>).\<close>

definition char_upper :: "char \<Rightarrow> char" where
  "char_upper c =
     (let n = of_char c :: nat in if 97 \<le> n \<and> n \<le> 122 then char_of (n - 32) else c)"

definition upper :: "string \<Rightarrow> string" where
  "upper s = map char_upper s"

text \<open>
  \<open>binascii.unhexlify\<close> on a \<open>str\<close>. The library first refuses a string with a non-ASCII
  character with a plain \<open>ValueError\<close>; then an odd length, and then any character that is
  not a hex digit (either case is accepted), raise \<open>binascii.Error\<close>. Nothing is returned
  unless the whole text decodes.
\<close>

datatype error = Binascii_Error | Value_Error

definition hex_val :: "char \<Rightarrow> nat option" where
  "hex_val c =
     (let n = of_char c :: nat in
      if 48 \<le> n \<and> n \<le> 57 then Some (n - 48)
      else if 97 \<le> n \<and> n \<le> 102 then Some (n - 87)
      else if 65 \<le> n \<and> n \<le> 70 then Some (n - 55)
      else None)"

fun a2b_hex :: "string \<Rightarrow> error + byte list" where
  "a2b_hex [] = Inr []"
| "a2b_hex [c] = Inl Binascii_Error"
| "a2b_hex (a # b # cs) =
     (case (hex_val a, hex_val b) of
        (Some hi, Some lo) \<Rightarrow>
          (case a2b_hex cs of
             Inl e \<Rightarrow> Inl e
           | Inr bs \<Rightarrow> Inr (of_nat (16 * hi + lo) # bs))
      | _ \<Rightarrow> Inl Binascii_Error)"

definition unhexlify :: "string \<Rightarrow> error + byte list" where
  "unhexlify s =
     (if \<exists>c \<in> set s. 128 \<le> (of_char c :: nat) then Inl Value_Error
      else if odd (length s) then Inl Binascii_Error
      else a2b_hex s)"

section \<open>Frame demultiplexer (\<open>parse_dump\<close>, first loop)\<close>

text \<open>
  \<open>cosmiq_dump_analyser.py\<close>, lines 10 to 32. The capture is the list of lines that
  \<open>readlines\<close> returns; the two accumulators are the fields of \<open>channels\<close>.
\<close>

record channels =
  header_hex :: string
  body_hex :: string

text \<open>One iteration of \<open>for line in lines\<close>.\<close>

definition demux_step :: "channels \<Rightarrow> string \<Rightarrow> channels" where
  "demux_step ch raw =
     (let line = strip raw in
      if length line < 10 then ch
      else
        let cmd = slice line 0 2;
            payload = drop 6 line
        in if cmd = ''42'' then ch\<lparr>header_hex := header_hex ch @ payload\<rparr>
           else if cmd = ''44'' then ch\<lparr>body_hex := body_hex ch @ payload\<rparr>
           else ch)"

definition demux :: "string list \<Rightarrow> channels" where
  "demux lines = foldl demux_step \<lparr>header_hex = [], body_hex = []\<rparr> lines"

text \<open>
  The payloads of the frames that the loop routes to the channel of command \<open>cmd\<close>, in
  frame order.
\<close>

definition routed :: "string \<Rightarrow> string list \<Rightarrow> string list" where
  "routed cmd lines =
     map (\<lambda>raw. drop 6 (strip raw))
       (filter (\<lambda>raw. \<not> length (strip raw) < 10 \<and> slice (strip raw) 0 2 = cmd) lines)"

section \<open>Block segmenter (\<open>parse_dump\<close>, second loop)\<close>

text \<open>
  \<open>cosmiq_dump_analyser.py\<close>, lines 52 to 74. The loop's three variables are the fields
  of \<open>seg_state\<close>. A chunk is appended to \<open>unique_data_chunks\<close> only just before
  \<open>current_chunk\<close> is rebound to a fresh \<open>bytearray\<close>, so the later in-place \<open>extend\<close>
  never reaches an emitted block and plain values model the lists.
\<close>

record seg_state =
  unique_data_chunks :: "byte list list"
  current_chunk :: "byte list"
  in_data :: bool

text \<open>One iteration of \<open>for i in range(0, len(body_bytes), 6)\<close>.\<close>

definition seg_step :: "byte list \<Rightarrow> seg_state \<Rightarrow> nat \<Rightarrow> seg_state" where
  "seg_step body_bytes st i =
     (let chunk = slice body_bytes i (i + 6);
          hex_chunk = upper (hex chunk)
      in if hex_chunk = ''FFFFFFFFFFFF''
         then (if in_data st
               then st\<lparr>unique_data_chunks := unique_data_chunks st @ [current_chunk st],
                       current_chunk := [], in_data := False\<rparr>
               else st)
         else st\<lparr>in_data := True, current_chunk := current_chunk st @ chunk\<rparr>)"

definition seg_init :: seg_state where
  "seg_init = \<lparr>unique_data_chunks = [], current_chunk = [], in_data = False\<rparr>"

definition seg_loop :: "byte list \<Rightarrow> seg_state" where
  "seg_loop body_bytes =
     foldl (seg_step body_bytes) seg_init (range3 0 (length body_bytes) 6)"

text \<open>The loop followed by the final \<open>if current_chunk: ...append(current_chunk)\<close>.\<close>

definition segment :: "byte list \<Rightarrow> byte list list" where
  "segment body_bytes =
     (let st = seg_loop body_bytes in
      if current_chunk st \<noteq> []
      then unique_data_chunks st @ [current_chunk st]
      else unique_data_chunks st)"

text \<open>The window partition the loop walks through, and the filler pattern of the spec.\<close>

definition windows :: "byte list \<Rightarrow> byte list list" where
  "windows body_bytes =
     map (\<lambda>i. slice body_bytes i (i + 6)) (range3 0 (length body_bytes) 6)"

definition FILLER :: "byte list" where
  "FILLER = replicate 6 0xFF"

text \<open>
  \<open>parse_dump\<close> as a function of the capture's lines: the header text it prints before
  decoding, and either the blocks it finds or the decoding error. \<open>Binascii_Error\<close> is
  caught (the function reports it and returns without segmenting); \<open>Value_Error\<close> is not
  caught and leaves the function as an exception.
\<close>

definition parse_dump :: "string list \<Rightarrow> string \<times> (error + byte list list)" where
  "parse_dump lines =
     (let ch = demux lines in
      (header_hex ch,
       case unhexlify (body_hex ch) of
         Inl e \<Rightarrow> Inl e
       | Inr body_bytes \<Rightarrow> Inr (segment body_bytes)))"

section \<open>Sample extractor (\<open>parse_logs\<close>, per block)\<close>

text \<open>
  \<open>cosmiq_log_parser.py\<close>, lines 35 to 61: what \<open>parse_logs\<close> computes from the bytes
  \<open>data\<close> of one block file.
\<close>

record sample =
  offset :: nat
  marker :: string
  raw_val :: nat
  depth_m :: real

text \<open>\<open>struct.unpack("<H", b)[0]\<close>: exactly two bytes, low byte first; otherwise an error.\<close>

definition unpack_H :: "byte list \<Rightarrow> nat option" where
  "unpack_H b = (case b of [lo, hi] \<Rightarrow> Some (unat lo + 256 * unat hi) | _ \<Rightarrow> None)"

text \<open>
  The \<open>while i < len(data) - 4\<close> loop; \<open>None\<close> stands for an exception of \<open>unpack\<close>. The
  right-hand side of the comparison may be negative, so it is computed in \<open>int\<close>. The
  scaled value \<open>val / 100.0\<close> is the exact quotient.
\<close>

function scan :: "byte list \<Rightarrow> nat \<Rightarrow> sample list \<Rightarrow> sample list option" where
  "scan data i samples =
     (if int i < int (length data) - 4 then
        (let marker = slice data i (i + 2) in
         if marker = [0xC2, 0x00] \<or> marker = [0xC3, 0x00] \<or> marker = [0xC4, 0x00] then
           (case unpack_H (slice data (i + 2) (i + 4)) of
              None \<Rightarrow> None
            | Some val \<Rightarrow>
                scan data (i + 4)
                  (samples @ [\<lparr>offset = i, marker = hex marker, raw_val = val,
                               depth_m = real val / 100\<rparr>]))
         else scan data (i + 1) samples)
      else Some samples)"
  by pat_completeness auto
termination
  by (relation "measure (\<lambda>(data, i, samples). length data - i)") auto

declare scan.simps [simp del]

definition extract_samples :: "byte list \<Rightarrow> sample list option" where
  "extract_samples data = scan data 0 []"

section \<open>Notions used to state the properties\<close>

text \<open>
  The body of the segmentation loop as a function of the window alone: the loop reads
  \<open>body_bytes\<close> and \<open>i\<close> only through \<open>chunk\<close>, and its hex comparison holds exactly
  for the filler pattern (lemmas \<open>hex_chunk_filler\<close> and \<open>seg_step_win_step\<close> below).
\<close>

definition win_step :: "seg_state \<Rightarrow> byte list \<Rightarrow> seg_state" where
  "win_step st chunk =
     (if chunk = FILLER
      then (if in_data st
            then st\<lparr>unique_data_chunks := unique_data_chunks st @ [current_chunk st],
                    current_chunk := [], in_data := False\<rparr>
            else st)
      else st\<lparr>in_data := True, current_chunk := current_chunk st @ chunk\<rparr>)"


text \<open>
  Maximal runs of consecutive non-filler windows in a window list \<open>ws\<close>: \<open>run_starts\<close> is
  the set of positions where such a run begins, and \<open>maximal_run ws i j\<close> says that the
  windows \<open>i, \<dots>, j - 1\<close> form one (none of them is the filler, and the run cannot be
  extended at either end).
\<close>

definition run_starts :: "byte list list \<Rightarrow> nat set" where
  "run_starts ws =
     {i \<in> {..<length ws}. ws ! i \<noteq> FILLER \<and> (i = 0 \<or> ws ! (i - 1) = FILLER)}"

definition maximal_run :: "byte list list \<Rightarrow> nat \<Rightarrow> nat \<Rightarrow> bool" where
  "maximal_run ws i j \<longleftrightarrow>
     i < j \<and> j \<le> length ws \<and> (\<forall>k \<in> {i..<j}. ws ! k \<noteq> FILLER) \<and>
     (i = 0 \<or> ws ! (i - 1) = FILLER) \<and> (j = length ws \<or> ws ! j = FILLER)"


section \<open>Hex text and the filler test\<close>

text \<open>
  The loop compares the upper-cased hex text of a chunk with \<open>FFFFFFFFFFFF\<close>; that holds
  exactly for the six bytes \<open>0xFF\<close>.
\<close>

lemma upper_hex_digit_F:
  assumes "n < 16"
  shows "char_upper (hex_digit n) = CHR ''F'' \<longleftrightarrow> n = 15"
proof -
  have "list_all (\<lambda>n. (char_upper (hex_digit n) = CHR ''F'') = (n = 15)) [0..<16]"
    by code_simp
  with assms show ?thesis by (simp add: list_all_iff)
qed

lemma upper_hex_byte_FF: "upper (hex_byte b) = ''FF'' \<longleftrightarrow> b = 0xFF"
proof -
  have lt: "unat b < 256" using unsigned_less [of b] by simp
  then have d: "unat b div 16 < 16" and m: "unat b mod 16 < 16" by simp_all
  have "upper (hex_byte b) = ''FF'' \<longleftrightarrow> unat b div 16 = 15 \<and> unat b mod 16 = 15"
    by (simp add: upper_def hex_byte_def upper_hex_digit_F [OF d] upper_hex_digit_F [OF m])
  also have "\<dots> \<longleftrightarrow> unat b = 255" by arith
  also have "\<dots> \<longleftrightarrow> b = 0xFF"
    by (simp add: word_unat_eq_iff)
  finally show ?thesis .
qed

lemma length_hex: "length (hex bs) = 2 * length bs"
  by (induction bs) (simp_all add: hex_def hex_byte_def)

lemma upper_hex_Cons: "upper (hex (b # bs)) = upper (hex_byte b) @ upper (hex bs)"
  by (simp add: hex_def upper_def)

lemma upper_hex_Nil: "upper (hex []) = []"
  by (simp add: hex_def upper_def)

lemma upper_hex_FILLER: "upper (hex FILLER) = ''FFFFFFFFFFFF''"
  by code_simp

lemma hex_chunk_filler: "upper (hex chunk) = ''FFFFFFFFFFFF'' \<longleftrightarrow> chunk = FILLER"
proof
  assume h: "upper (hex chunk) = ''FFFFFFFFFFFF''"
  then have "length (upper (hex chunk)) = 12" by simp
  then have "length chunk = 6" by (simp add: upper_def length_hex)
  then obtain a b c d e f where ch: "chunk = [a, b, c, d, e, f]"
    by (auto simp: length_Suc_conv eval_nat_numeral)
  have two: "\<And>x xs y ys. length x = 2 \<Longrightarrow> length y = 2 \<Longrightarrow> (x @ xs = y @ ys) = (x = y \<and> xs = ys)"
    by simp
  from h have "upper (hex_byte a) = ''FF'' \<and> upper (hex_byte b) = ''FF'' \<and> upper (hex_byte c) = ''FF''
     \<and> upper (hex_byte d) = ''FF'' \<and> upper (hex_byte e) = ''FF'' \<and> upper (hex_byte f) = ''FF''"
    unfolding ch upper_hex_Cons upper_hex_Nil
    by (simp add: hex_byte_def upper_def)
  then show "chunk = FILLER"
    by (simp add: ch FILLER_def upper_hex_byte_FF eval_nat_numeral)
next
  assume "chunk = FILLER"
  then show "upper (hex chunk) = ''FFFFFFFFFFFF''"
    by (simp add: upper_hex_FILLER)
qed

section \<open>The window partition\<close>

text \<open>
  The chunks \<open>body_bytes[i : i + 6]\<close> for \<open>i\<close> in \<open>range(0, len(body_bytes), 6)\<close> cut the
  input into consecutive windows: the first six bytes, then the windows of the rest.
\<close>

lemma seg_step_win_step: "seg_step bs st i = win_step st (slice bs i (i + 6))"
  by (simp add: seg_step_def win_step_def Let_def hex_chunk_filler)

lemma seg_loop_windows: "seg_loop bs = foldl win_step seg_init (windows bs)"
proof -
  have eq: "seg_step bs = (\<lambda>st i. win_step st (slice bs i (i + 6)))"
    by (intro ext) (rule seg_step_win_step)
  show ?thesis by (simp only: seg_loop_def windows_def foldl_map eq)
qed

lemma range3_six: "range3 0 n 6 = map (\<lambda>k. 6 * k) [0 ..< (n + 5) div 6]"
  by (simp add: range3_def ac_simps)

lemma windows_Nil: "windows [] = []"
  by (simp add: windows_def range3_six)

lemma windows_rec:
  assumes "bs \<noteq> []"
  shows "windows bs = take 6 bs # windows (drop 6 bs)"
proof -
  from assms have pos: "0 < length bs" by simp
  have n: "(length bs + 5) div 6 = Suc ((length bs - 6 + 5) div 6)"
  proof (cases "length bs \<le> 6")
    case True
    from pos obtain k where k: "length bs = Suc k" by (cases "length bs") auto
    with True have "k < 6" by simp
    then have "(k + 6) div 6 = 1" by simp
    with True show ?thesis unfolding k by simp
  next
    case False
    then obtain m where m: "length bs = m + 6" by (metis le_add_diff_inverse2 nat_le_linear)
    show ?thesis unfolding m by simp
  qed
  have sl: "\<And>k. slice bs (6 * Suc k) (6 * Suc k + 6) = slice (drop 6 bs) (6 * k) (6 * k + 6)"
    by (simp add: slice_def add.commute)
  have "[0 ..< Suc ((length bs - 6 + 5) div 6)] = 0 # map Suc [0 ..< (length bs - 6 + 5) div 6]"
    by (simp only: map_Suc_upt upt_conv_Cons [OF zero_less_Suc])
  then have "windows bs = slice bs 0 6 #
      map (\<lambda>k. slice bs (6 * Suc k) (6 * Suc k + 6)) [0 ..< (length bs - 6 + 5) div 6]"
    unfolding windows_def range3_six n by (simp add: comp_def del: upt_Suc)
  also have "\<dots> = take 6 bs # windows (drop 6 bs)"
    unfolding sl windows_def range3_six by (simp add: slice_def comp_def)
  finally show ?thesis .
qed

lemma windows_induct [case_names Nil Step]:
  assumes "P []" and "\<And>bs. bs \<noteq> [] \<Longrightarrow> P (drop 6 bs) \<Longrightarrow> P bs"
  shows "P (bs :: 'a list)"
proof (induction "length bs" arbitrary: bs rule: less_induct)
  case less
  show ?case
  proof (cases "bs = []")
    case True with assms(1) show ?thesis by simp
  next
    case False
    then have "length (drop 6 bs) < length bs" by simp
    from less [OF this] False assms(2) show ?thesis by blast
  qed
qed

lemma concat_windows: "concat (windows bs) = bs"
proof (induction bs rule: windows_induct)
  case Nil
  show ?case by (simp add: windows_Nil)
next
  case (Step bs)
  show ?case unfolding windows_rec [OF Step.hyps] using Step.IH by simp
qed

lemma windows_nonempty: "w \<in> set (windows bs) \<Longrightarrow> w \<noteq> []"
proof (induction bs rule: windows_induct)
  case Nil
  then show ?case by (simp add: windows_Nil)
next
  case (Step bs)
  from Step.prems have "w = take 6 bs \<or> w \<in> set (windows (drop 6 bs))"
    unfolding windows_rec [OF Step.hyps] by simp
  with Step.IH Step.hyps show ?case by auto
qed

lemma windows_eq_Nil: "windows bs = [] \<longleftrightarrow> bs = []"
proof
  assume "windows bs = []"
  then show "bs = []" using windows_rec [of bs] by (cases "bs = []") simp_all
qed (simp add: windows_Nil)

lemma windows_append:
  "length xs mod 6 = 0 \<Longrightarrow> windows (xs @ ys) = windows xs @ windows ys"
proof (induction xs rule: windows_induct)
  case Nil
  show ?case by (simp add: windows_Nil)
next
  case (Step xs)
  from Step.hyps Step.prems have len: "6 \<le> length xs"
    by (cases "length xs < 6") auto
  then have "length (drop 6 xs) mod 6 = 0"
    using Step.prems le_mod_geq [of 6 "length xs"] by simp
  with Step.IH have IH: "windows (drop 6 xs @ ys) = windows (drop 6 xs) @ windows ys" .
  from Step.hyps have "xs @ ys \<noteq> []" by simp
  from windows_rec [OF this] have "windows (xs @ ys) = take 6 xs # windows (drop 6 xs @ ys)"
    using len by simp
  with IH show ?case unfolding windows_rec [OF Step.hyps] by simp
qed

lemma windows_short: "bs \<noteq> [] \<Longrightarrow> length bs \<le> 6 \<Longrightarrow> windows bs = [bs]"
  using windows_rec [of bs] by (simp add: windows_Nil)

lemma drop_windows: "drop n (windows bs) = windows (drop (6 * n) bs)"
proof (induction n arbitrary: bs)
  case 0
  show ?case by simp
next
  case (Suc n)
  show ?case
  proof (cases "bs = []")
    case True then show ?thesis by (simp add: windows_Nil)
  next
    case False
    have "drop (6 * Suc n) bs = drop (6 * n) (drop 6 bs)" by (simp add: add.commute)
    then show ?thesis unfolding windows_rec [OF False] by (simp add: Suc)
  qed
qed

lemma take_windows: "take n (windows bs) = windows (take (6 * n) bs)"
proof (induction n arbitrary: bs)
  case 0
  show ?case by (simp add: windows_Nil)
next
  case (Suc n)
  show ?case
  proof (cases "bs = []")
    case True then show ?thesis by (simp add: windows_Nil)
  next
    case False
    have "take (6 * Suc n) bs = take 6 bs @ take (6 * n) (drop 6 bs)"
      by (simp add: take_add [symmetric] add.commute)
    moreover have "windows (take 6 bs @ take (6 * n) (drop 6 bs)) =
        take 6 bs # windows (take (6 * n) (drop 6 bs))"
    proof (cases "length bs \<le> 6")
      case True
      with False show ?thesis using windows_short [of bs] by (simp add: windows_Nil)
    next
      case long: False
      then have "length (take 6 bs) mod 6 = 0" by simp
      from windows_append [OF this]
      have "windows (take 6 bs @ take (6 * n) (drop 6 bs)) =
          windows (take 6 bs) @ windows (take (6 * n) (drop 6 bs))" .
      moreover have "windows (take 6 bs) = [take 6 bs]"
        using windows_short [of "take 6 bs"] False by simp
      ultimately show ?thesis by simp
    qed
    ultimately show ?thesis unfolding windows_rec [OF False] by (simp add: Suc)
  qed
qed

lemma slice_windows: "slice (windows bs) i j = windows (slice bs (6 * i) (6 * j))"
  by (simp add: slice_def drop_windows take_windows diff_mult_distrib2)

lemma concat_slice_windows: "concat (slice (windows bs) i j) = slice bs (6 * i) (6 * j)"
  by (simp add: slice_windows concat_windows)

section \<open>Invariants of the segmentation loop\<close>

text \<open>
  What holds of the loop's state after any prefix \<open>ws\<close> of the windows, each by induction
  on the prefix from its end: \<open>in_data\<close> tells whether the last window was data; the
  emitted chunks and the current one are the data windows in order; their number is the
  number of runs begun; each emitted chunk is a closed maximal run and the current chunk
  is the run still open.
\<close>

lemma win_step_filler:
  "win_step st FILLER =
     (if in_data st
      then st\<lparr>unique_data_chunks := unique_data_chunks st @ [current_chunk st],
              current_chunk := [], in_data := False\<rparr>
      else st)"
  by (simp add: win_step_def)

lemma win_step_data:
  "w \<noteq> FILLER \<Longrightarrow> win_step st w = st\<lparr>in_data := True, current_chunk := current_chunk st @ w\<rparr>"
  by (simp add: win_step_def)

lemma in_data_iff:
  "in_data (foldl win_step seg_init ws) \<longleftrightarrow> ws \<noteq> [] \<and> last ws \<noteq> FILLER"
proof (induction ws rule: rev_induct)
  case Nil
  show ?case by (simp add: seg_init_def)
next
  case (snoc w ws)
  show ?case by (cases "w = FILLER") (simp_all add: win_step_filler win_step_data)
qed

lemma current_iff:
  "[] \<notin> set ws \<Longrightarrow>
     current_chunk (foldl win_step seg_init ws) \<noteq> [] \<longleftrightarrow> in_data (foldl win_step seg_init ws)"
proof (induction ws rule: rev_induct)
  case Nil
  show ?case by (simp add: seg_init_def)
next
  case (snoc w ws)
  then show ?case by (cases "w = FILLER") (auto simp: win_step_filler win_step_data)
qed

lemma run_starts_snoc:
  "run_starts (ws @ [w]) =
     run_starts ws \<union> (if w \<noteq> FILLER \<and> (ws = [] \<or> last ws = FILLER) then {length ws} else {})"
proof -
  have old: "(i \<in> run_starts (ws @ [w])) = (i \<in> run_starts ws)" if "i < length ws" for i
  proof -
    from that have "i - 1 < length ws" by simp
    then have "(ws @ [w]) ! (i - 1) = ws ! (i - 1)" by (simp only: nth_append if_True)
    moreover from that have "(ws @ [w]) ! i = ws ! i" by (simp only: nth_append if_True)
    ultimately show ?thesis using that by (simp add: run_starts_def)
  qed
  have new: "length ws \<in> run_starts (ws @ [w]) \<longleftrightarrow>
      w \<noteq> FILLER \<and> (ws = [] \<or> last ws = FILLER)"
    by (cases "ws = []") (simp_all add: run_starts_def nth_append last_conv_nth)
  have bound: "\<And>i. i \<in> run_starts (ws @ [w]) \<Longrightarrow> i < length ws \<or> i = length ws"
    by (auto simp: run_starts_def)
  have bound': "\<And>i. i \<in> run_starts ws \<Longrightarrow> i < length ws"
    by (simp add: run_starts_def)
  show ?thesis
  proof (intro set_eqI iffI)
    fix i assume "i \<in> run_starts (ws @ [w])"
    with bound [OF this] old new show "i \<in> run_starts ws \<union>
        (if w \<noteq> FILLER \<and> (ws = [] \<or> last ws = FILLER) then {length ws} else {})"
      by auto
  next
    fix i assume "i \<in> run_starts ws \<union>
        (if w \<noteq> FILLER \<and> (ws = [] \<or> last ws = FILLER) then {length ws} else {})"
    then show "i \<in> run_starts (ws @ [w])"
      using old bound' new by (auto split: if_splits)
  qed
qed

lemma finite_run_starts: "finite (run_starts ws)"
  by (simp add: run_starts_def)

lemma length_notin_run_starts: "length ws \<notin> run_starts ws"
  by (simp add: run_starts_def)

lemma block_count:
  "length (unique_data_chunks (foldl win_step seg_init ws)) +
     (if in_data (foldl win_step seg_init ws) then 1 else 0) = card (run_starts ws)"
proof (induction ws rule: rev_induct)
  case Nil
  show ?case by (simp add: seg_init_def run_starts_def)
next
  case (snoc w ws)
  show ?case
  proof (cases "w = FILLER")
    case True
    with snoc show ?thesis
      by (cases "in_data (foldl win_step seg_init ws)") (simp_all add: win_step_filler run_starts_snoc)
  next
    case False
    with snoc show ?thesis
      by (cases "in_data (foldl win_step seg_init ws)")
        (auto simp: win_step_data run_starts_snoc in_data_iff
          finite_run_starts length_notin_run_starts)
  qed
qed

lemma block_bytes:
  "concat (unique_data_chunks (foldl win_step seg_init ws)) @
     current_chunk (foldl win_step seg_init ws) = concat (filter (\<lambda>w. w \<noteq> FILLER) ws)"
proof (induction ws rule: rev_induct)
  case Nil
  show ?case by (simp add: seg_init_def)
next
  case (snoc w ws)
  then show ?case by (cases "w = FILLER") (simp_all add: win_step_filler win_step_data)
qed

lemma slice_snoc_closed: "j \<le> length ws \<Longrightarrow> slice (ws @ [w]) i j = slice ws i j"
  by (simp add: slice_def)

lemma slice_snoc_open:
  "i \<le> length ws \<Longrightarrow> slice (ws @ [w]) i (Suc (length ws)) = slice ws i (length ws) @ [w]"
  by (simp add: slice_def Suc_diff_le)

lemma maximal_run_closed:
  assumes "maximal_run ws i j" and "j < length ws"
  shows "maximal_run (ws @ [w]) i j"
proof -
  from assms have ij: "i < j" and "ws ! j = FILLER"
    and nf: "\<forall>k \<in> {i..<j}. ws ! k \<noteq> FILLER" and st: "i = 0 \<or> ws ! (i - 1) = FILLER"
    by (auto simp: maximal_run_def)
  have keep: "(ws @ [w]) ! k = ws ! k" if "k < length ws" for k
    using that by (simp only: nth_append if_True)
  from ij assms(2) have "i - 1 < length ws" by simp
  with keep have "(ws @ [w]) ! (i - 1) = ws ! (i - 1)" by blast
  moreover from keep nf assms(2) have "\<forall>k \<in> {i..<j}. (ws @ [w]) ! k \<noteq> FILLER" by simp
  moreover from keep assms(2) \<open>ws ! j = FILLER\<close> have "(ws @ [w]) ! j = FILLER" by simp
  ultimately show ?thesis using ij assms(2) st by (simp add: maximal_run_def)
qed

lemma maximal_run_close:
  assumes "maximal_run ws i (length ws)"
  shows "maximal_run (ws @ [FILLER]) i (length ws)"
proof -
  from assms have ij: "i < length ws"
    and nf: "\<forall>k \<in> {i..<length ws}. ws ! k \<noteq> FILLER" and st: "i = 0 \<or> ws ! (i - 1) = FILLER"
    by (auto simp: maximal_run_def)
  have keep: "(ws @ [FILLER]) ! k = ws ! k" if "k < length ws" for k
    using that by (simp only: nth_append if_True)
  from ij have "i - 1 < length ws" by simp
  with keep have "(ws @ [FILLER]) ! (i - 1) = ws ! (i - 1)" by blast
  moreover from keep nf have "\<forall>k \<in> {i..<length ws}. (ws @ [FILLER]) ! k \<noteq> FILLER" by simp
  ultimately show ?thesis using ij st by (simp add: maximal_run_def)
qed

lemma maximal_run_extend:
  assumes "maximal_run ws i (length ws)" and "w \<noteq> FILLER"
  shows "maximal_run (ws @ [w]) i (Suc (length ws))"
proof -
  from assms have ij: "i < length ws"
    and nf: "\<forall>k \<in> {i..<length ws}. ws ! k \<noteq> FILLER" and st: "i = 0 \<or> ws ! (i - 1) = FILLER"
    by (auto simp: maximal_run_def)
  have keep: "(ws @ [w]) ! k = ws ! k" if "k < length ws" for k
    using that by (simp only: nth_append if_True)
  from ij have "i - 1 < length ws" by simp
  with keep have "(ws @ [w]) ! (i - 1) = ws ! (i - 1)" by blast
  moreover have "\<forall>k \<in> {i..<Suc (length ws)}. (ws @ [w]) ! k \<noteq> FILLER"
  proof
    fix k assume "k \<in> {i..<Suc (length ws)}"
    then consider "k \<in> {i..<length ws}" | "k = length ws" by force
    then show "(ws @ [w]) ! k \<noteq> FILLER"
      using keep nf assms(2) by cases simp_all
  qed
  ultimately show ?thesis using ij st by (simp add: maximal_run_def)
qed

lemma maximal_run_open:
  assumes "w \<noteq> FILLER" and "ws = [] \<or> last ws = FILLER"
  shows "maximal_run (ws @ [w]) (length ws) (Suc (length ws))"
proof -
  have "length ws = 0 \<or> (ws @ [w]) ! (length ws - 1) = FILLER"
  proof (cases "ws = []")
    case False
    then have "length ws - 1 < length ws" by simp
    then have "(ws @ [w]) ! (length ws - 1) = ws ! (length ws - 1)"
      by (simp only: nth_append if_True)
    with False assms(2) show ?thesis by (simp add: last_conv_nth)
  qed simp
  with assms(1) show ?thesis by (simp add: maximal_run_def)
qed

lemma idle_current_Nil:
  "\<not> in_data (foldl win_step seg_init ws) \<Longrightarrow> current_chunk (foldl win_step seg_init ws) = []"
proof (induction ws rule: rev_induct)
  case Nil
  show ?case by (simp add: seg_init_def)
next
  case (snoc w ws)
  then show ?case
    by (cases "w = FILLER"; cases "in_data (foldl win_step seg_init ws)")
      (simp_all add: win_step_filler win_step_data)
qed

lemma blocks_are_runs:
  "(\<forall>B \<in> set (unique_data_chunks (foldl win_step seg_init ws)).
      \<exists>i j. maximal_run ws i j \<and> j < length ws \<and> B = concat (slice ws i j)) \<and>
   (in_data (foldl win_step seg_init ws) \<longrightarrow>
      (\<exists>i. maximal_run ws i (length ws) \<and>
           current_chunk (foldl win_step seg_init ws) = concat (slice ws i (length ws))))"
  (is "?closed ws \<and> ?open ws")
proof (induction ws rule: rev_induct)
  case Nil
  show ?case by (simp add: seg_init_def)
next
  case (snoc w ws)
  let ?st = "foldl win_step seg_init ws"
  from snoc have closed: "?closed ws" and opn: "?open ws" by blast+
  have old: "\<exists>i j. maximal_run (ws @ [w]) i j \<and> j < length (ws @ [w]) \<and>
      B = concat (slice (ws @ [w]) i j)" if "B \<in> set (unique_data_chunks ?st)" for B
  proof -
    from closed that obtain i j where
      "maximal_run ws i j" "j < length ws" "B = concat (slice ws i j)" by blast
    then have "maximal_run (ws @ [w]) i j \<and> j < length (ws @ [w]) \<and>
        B = concat (slice (ws @ [w]) i j)"
      by (simp add: maximal_run_closed slice_snoc_closed)
    then show ?thesis by blast
  qed
  show ?case
  proof (cases "w = FILLER")
    case True
    show ?thesis
    proof (cases "in_data ?st")
      case False
      with True old show ?thesis by (simp add: win_step_filler)
    next
      case True
      with opn obtain i where i: "maximal_run ws i (length ws)"
        "current_chunk ?st = concat (slice ws i (length ws))" by blast
      then have "maximal_run (ws @ [w]) i (length ws) \<and> length ws < length (ws @ [w]) \<and>
          current_chunk ?st = concat (slice (ws @ [w]) i (length ws))"
        using \<open>w = FILLER\<close> by (simp add: maximal_run_close slice_snoc_closed)
      then have "\<exists>i j. maximal_run (ws @ [w]) i j \<and> j < length (ws @ [w]) \<and>
          current_chunk ?st = concat (slice (ws @ [w]) i j)" by blast
      with True \<open>w = FILLER\<close> old show ?thesis by (auto simp: win_step_filler)
    qed
  next
    case False
    have "\<exists>i. maximal_run (ws @ [w]) i (length (ws @ [w])) \<and>
        current_chunk ?st @ w = concat (slice (ws @ [w]) i (length (ws @ [w])))"
    proof (cases "in_data ?st")
      case True
      with opn obtain i where i: "maximal_run ws i (length ws)"
        "current_chunk ?st = concat (slice ws i (length ws))" by blast
      from i(1) have "i \<le> length ws" by (simp add: maximal_run_def)
      with i False have "maximal_run (ws @ [w]) i (length (ws @ [w])) \<and>
          current_chunk ?st @ w = concat (slice (ws @ [w]) i (length (ws @ [w])))"
        by (simp add: maximal_run_extend slice_snoc_open)
      then show ?thesis by blast
    next
      case nd: False
      then have e: "ws = [] \<or> last ws = FILLER" by (simp add: in_data_iff)
      from nd have "current_chunk ?st = []" by (rule idle_current_Nil)
      with False e have "maximal_run (ws @ [w]) (length ws) (length (ws @ [w])) \<and>
          current_chunk ?st @ w = concat (slice (ws @ [w]) (length ws) (length (ws @ [w])))"
        by (simp add: maximal_run_open slice_snoc_open slice_def)
      then show ?thesis by blast
    qed
    with False old show ?thesis by (simp add: win_step_data)
  qed
qed

lemma segment_fold:
  "segment bs =
     (if in_data (foldl win_step seg_init (windows bs))
      then unique_data_chunks (foldl win_step seg_init (windows bs)) @
           [current_chunk (foldl win_step seg_init (windows bs))]
      else unique_data_chunks (foldl win_step seg_init (windows bs)))"
proof -
  have "[] \<notin> set (windows bs)" using windows_nonempty by blast
  from current_iff [OF this] show ?thesis
    by (simp add: segment_def seg_loop_windows Let_def)
qed

lemma slice_Cons_nth:
  assumes "i < j" and "j \<le> length ws"
  shows "slice ws i j = ws ! i # slice ws (Suc i) j"
proof -
  from assms have "i < length ws" by simp
  then have d: "drop i ws = ws ! i # drop (Suc i) ws" by (rule Cons_nth_drop_Suc [symmetric])
  from assms(1) have "j - i = Suc (j - Suc i)" by simp
  then show ?thesis by (simp add: slice_def d)
qed

lemma in_set_slice:
  assumes "x \<in> set (slice ws i j)" and "j \<le> length ws"
  shows "\<exists>k \<in> {i..<j}. x = ws ! k"
proof -
  from assms(1) obtain m where m: "m < length (slice ws i j)" "x = slice ws i j ! m"
    by (auto simp: in_set_conv_nth)
  from m(1) assms(2) have lt: "m < j - i" "i + m < length ws" by (auto simp: slice_def)
  with m(2) have "x = ws ! (i + m)" by (simp add: slice_def)
  moreover from lt have "i + m \<in> {i..<j}" by simp
  ultimately show ?thesis by blast
qed

lemma segment_blocks:
  assumes "B \<in> set (segment bs)"
  shows "\<exists>i j. maximal_run (windows bs) i j \<and> B = concat (slice (windows bs) i j)"
proof -
  let ?st = "foldl win_step seg_init (windows bs)"
  from assms consider "B \<in> set (unique_data_chunks ?st)"
    | "in_data ?st" "B = current_chunk ?st"
    by (auto simp: segment_fold split: if_splits)
  then show ?thesis
  proof cases
    case 1
    with blocks_are_runs [of "windows bs"] show ?thesis by blast
  next
    case 2
    with blocks_are_runs [of "windows bs"] show ?thesis by blast
  qed
qed

lemma fold_data_windows:
  "ws \<noteq> [] \<Longrightarrow> \<forall>w \<in> set ws. w \<noteq> FILLER \<Longrightarrow>
     foldl win_step st ws = st\<lparr>in_data := True, current_chunk := current_chunk st @ concat ws\<rparr>"
proof (induction ws rule: rev_induct)
  case Nil
  then show ?case by simp
next
  case (snoc w ws)
  then show ?case by (cases "ws = []") (simp_all add: win_step_data)
qed

lemma segment_no_filler:
  assumes "bs \<noteq> []" and "\<forall>w \<in> set (windows bs). w \<noteq> FILLER"
  shows "segment bs = [bs]"
proof -
  from assms(1) have "windows bs \<noteq> []" by (simp add: windows_eq_Nil)
  from fold_data_windows [OF this assms(2)] show ?thesis
    by (simp add: segment_fold seg_init_def concat_windows)
qed

lemma segment_Nil: "segment [] = []"
  by (simp add: segment_fold windows_Nil seg_init_def)

lemma segment_scenario:
  "segment [0xFF, 0xFF, 0xFF, 0xFF, 0xFF, 0xFF, 0xC2, 0x00, 0x12, 0x34, 0x00, 0x00,
          0xFF, 0xFF, 0xFF, 0xFF, 0xFF, 0xFF] = [[0xC2, 0x00, 0x12, 0x34, 0x00, 0x00]]"
  by code_simp

section \<open>Demultiplexing and hex decoding\<close>

text \<open>
  Each accumulator is the concatenation of the payloads routed to it; \<open>unhexlify\<close>
  distributes over the concatenation of texts that decode, fails exactly on odd length
  or a non-hex character, and inverts \<open>hex\<close>.
\<close>

lemma demux_step_routed:
  "header_hex (demux_step ch raw) = header_hex ch @ concat (routed ''42'' [raw]) \<and>
   body_hex (demux_step ch raw) = body_hex ch @ concat (routed ''44'' [raw])"
  by (simp add: demux_step_def routed_def Let_def)

lemma routed_Cons: "routed cmd (raw # lines) = routed cmd [raw] @ routed cmd lines"
  by (simp add: routed_def)

lemma foldl_demux_routed:
  "header_hex (foldl demux_step ch lines) = header_hex ch @ concat (routed ''42'' lines) \<and>
   body_hex (foldl demux_step ch lines) = body_hex ch @ concat (routed ''44'' lines)"
proof (induction lines arbitrary: ch)
  case Nil
  show ?case by (simp add: routed_def)
next
  case (Cons raw lines)
  from Cons [of "demux_step ch raw"] demux_step_routed [of ch raw] show ?case
    by (simp add: routed_Cons [of _ raw lines])
qed

lemma demux_routed:
  "header_hex (demux lines) = concat (routed ''42'' lines) \<and>
   body_hex (demux lines) = concat (routed ''44'' lines)"
  using foldl_demux_routed [of "\<lparr>header_hex = [], body_hex = []\<rparr>" lines]
  by (simp add: demux_def)

lemma a2b_hex_length: "a2b_hex s = Inr bs \<Longrightarrow> length s = 2 * length bs"
proof (induction s arbitrary: bs rule: a2b_hex.induct)
  case (3 a b cs)
  then show ?case by (auto split: option.splits sum.splits)
qed simp_all

lemma a2b_hex_append:
  "a2b_hex s = Inr x \<Longrightarrow> a2b_hex t = Inr y \<Longrightarrow> a2b_hex (s @ t) = Inr (x @ y)"
proof (induction s arbitrary: x rule: a2b_hex.induct)
  case (3 a b cs)
  then show ?case by (auto split: option.splits sum.splits)
qed simp_all

lemma a2b_hex_ok_iff:
  "(\<exists>bs. a2b_hex s = Inr bs) \<longleftrightarrow> even (length s) \<and> (\<forall>c \<in> set s. hex_val c \<noteq> None)"
proof (induction s rule: a2b_hex.induct)
  case (3 a b cs)
  then show ?case by (auto split: option.splits sum.splits)
qed simp_all

lemma a2b_hex_error: "a2b_hex s = Inl e \<Longrightarrow> e = Binascii_Error"
proof (induction s rule: a2b_hex.induct)
  case (3 a b cs)
  then show ?case by (auto split: option.splits sum.splits)
qed simp_all

lemma hex_val_ascii: "hex_val c \<noteq> None \<Longrightarrow> (of_char c :: nat) < 128"
  by (simp add: hex_val_def Let_def split: if_splits)

lemma unhexlify_length: "unhexlify s = Inr bs \<Longrightarrow> length s = 2 * length bs"
  by (auto simp: unhexlify_def a2b_hex_length split: if_splits)

lemma unhexlify_append:
  "unhexlify s = Inr x \<Longrightarrow> unhexlify t = Inr y \<Longrightarrow> unhexlify (s @ t) = Inr (x @ y)"
  by (auto simp: unhexlify_def a2b_hex_append split: if_splits)

lemma unhexlify_Nil: "unhexlify [] = Inr []"
  by (simp add: unhexlify_def)

lemma unhexlify_concat:
  "list_all2 (\<lambda>p b. unhexlify p = Inr b) ps bss \<Longrightarrow> unhexlify (concat ps) = Inr (concat bss)"
  by (induction ps bss rule: list_all2_induct) (simp_all add: unhexlify_Nil unhexlify_append)

lemma unhexlify_ok_iff:
  "(\<exists>bs. unhexlify s = Inr bs) \<longleftrightarrow> even (length s) \<and> (\<forall>c \<in> set s. hex_val c \<noteq> None)"
proof (cases "\<exists>c \<in> set s. 128 \<le> (of_char c :: nat)")
  case True
  then obtain c where "c \<in> set s" "128 \<le> (of_char c :: nat)" by blast
  with hex_val_ascii [of c] have "\<exists>c \<in> set s. hex_val c = None" by force
  with True show ?thesis by (simp add: unhexlify_def)
next
  case False
  then show ?thesis
    using a2b_hex_ok_iff [of s] by (cases "odd (length s)") (simp_all add: unhexlify_def)
qed

lemma unhexlify_fails_iff:
  "(\<exists>e. unhexlify s = Inl e) \<longleftrightarrow> odd (length s) \<or> (\<exists>c \<in> set s. hex_val c = None)"
proof -
  have "(\<exists>e. unhexlify s = Inl e) \<longleftrightarrow> \<not> (\<exists>bs. unhexlify s = Inr bs)"
    by (cases "unhexlify s") simp_all
  also have "\<dots> \<longleftrightarrow> odd (length s) \<or> (\<exists>c \<in> set s. hex_val c = None)"
    by (simp only: unhexlify_ok_iff) auto
  finally show ?thesis .
qed

lemma unhexlify_Value_Error:
  "unhexlify s = Inl Value_Error \<longleftrightarrow> (\<exists>c \<in> set s. 128 \<le> (of_char c :: nat))"
  using a2b_hex_error [of s Value_Error] by (auto simp: unhexlify_def)

lemma unhexlify_Binascii_Error:
  "unhexlify s = Inl Binascii_Error \<longleftrightarrow>
     (\<forall>c \<in> set s. (of_char c :: nat) < 128) \<and>
     (odd (length s) \<or> (\<exists>c \<in> set s. hex_val c = None))"
proof -
  have "unhexlify s = Inl Binascii_Error \<longleftrightarrow>
      (\<exists>e. unhexlify s = Inl e) \<and> unhexlify s \<noteq> Inl Value_Error"
    by (metis error.exhaust error.distinct(1) sum.inject(1))
  then show ?thesis
    unfolding unhexlify_fails_iff unhexlify_Value_Error by (auto simp: not_le)
qed

lemma demux_step_cong:
  assumes "length (strip a) = length (strip b)"
    and "slice (strip a) 0 2 = slice (strip b) 0 2"
    and "drop 6 (strip a) = drop 6 (strip b)"
  shows "demux_step ch a = demux_step ch b"
  using assms by (simp add: demux_step_def Let_def)

lemma hex_digit_facts:
  assumes "n < 16"
  shows "hex_val (hex_digit n) = Some n" and "hex_val (char_upper (hex_digit n)) = Some n"
    and "(of_char (hex_digit n) :: nat) < 128" and "(of_char (char_upper (hex_digit n)) :: nat) < 128"
proof -
  have "list_all (\<lambda>n. hex_val (hex_digit n) = Some n \<and>
      hex_val (char_upper (hex_digit n)) = Some n \<and>
      (of_char (hex_digit n) :: nat) < 128 \<and>
      (of_char (char_upper (hex_digit n)) :: nat) < 128) [0..<16]"
    by code_simp
  with assms show "hex_val (hex_digit n) = Some n"
    and "hex_val (char_upper (hex_digit n)) = Some n"
    and "(of_char (hex_digit n) :: nat) < 128"
    and "(of_char (char_upper (hex_digit n)) :: nat) < 128"
    by (simp_all add: list_all_iff)
qed

lemma byte_nibbles: "of_nat (16 * (unat b div 16) + unat b mod 16) = (b :: byte)"
  by simp

lemma unhexlify_hex_byte:
  shows "unhexlify (hex_byte b) = Inr [b]" and "unhexlify (upper (hex_byte b)) = Inr [b]"
proof -
  have "unat b < 256" using unsigned_less [of b] by simp
  then have d: "unat b div 16 < 16" and m: "unat b mod 16 < 16" by simp_all
  have n: "\<And>x::nat. (128 \<le> x) = (\<not> x < 128)" by auto
  show "unhexlify (hex_byte b) = Inr [b]"
    using hex_digit_facts [OF d] hex_digit_facts [OF m]
    by (simp add: unhexlify_def hex_byte_def n)
  show "unhexlify (upper (hex_byte b)) = Inr [b]"
    using hex_digit_facts [OF d] hex_digit_facts [OF m]
    by (simp add: unhexlify_def hex_byte_def upper_def n)
qed

lemma unhexlify_hex: "unhexlify (hex bs) = Inr bs"
proof -
  have "list_all2 (\<lambda>p b. unhexlify p = Inr b) (map hex_byte bs) (map (\<lambda>b. [b]) bs)"
    by (simp add: list_all2_map1 list_all2_map2 unhexlify_hex_byte list_all2_same)
  from unhexlify_concat [OF this] show ?thesis by (simp add: hex_def)
qed

lemma unhexlify_upper_hex: "unhexlify (upper (hex bs)) = Inr bs"
proof -
  have "list_all2 (\<lambda>p b. unhexlify p = Inr b)
      (map (\<lambda>b. upper (hex_byte b)) bs) (map (\<lambda>b. [b]) bs)"
    unfolding list_all2_map1 list_all2_map2 list_all2_same
    using unhexlify_hex_byte(2) by blast
  moreover have "upper (hex bs) = concat (map (\<lambda>b. upper (hex_byte b)) bs)"
    by (simp add: hex_def upper_def map_concat comp_def)
  ultimately show ?thesis using unhexlify_concat by fastforce
qed

section \<open>The sample scan always returns\<close>

text \<open>
  Inside the loop at least five bytes remain, so the two value bytes are always there and
  \<open>unpack\<close> never fails: the scan returns a sample list for every block.
\<close>

lemma scan_total: "\<exists>ss. scan data i samples = Some ss"
proof (induction data i samples rule: scan.induct)
  case (1 data i samples)
  show ?case
  proof (cases "int i < int (length data) - 4")
    case False
    then show ?thesis by (simp add: scan.simps)
  next
    case True
    then have "length (slice data (i + 2) (i + 4)) = 2" by (simp add: slice_def)
    then obtain lo hi where v: "slice data (i + 2) (i + 4) = [lo, hi]"
      by (auto simp: length_Suc_conv eval_nat_numeral)
    then have u: "unpack_H (slice data (i + 2) (i + 4)) = Some (unat lo + 256 * unat hi)"
      by (simp add: unpack_H_def)
    show ?thesis
    proof (cases "slice data i (i + 2) = [0xC2, 0x00] \<or> slice data i (i + 2) = [0xC3, 0x00]
        \<or> slice data i (i + 2) = [0xC4, 0x00]")
      case m: True
      from "1.IH"(1) [OF True refl m u] u m True show ?thesis
        by (subst scan.simps) (simp add: Let_def)
    next
      case m: False
      from "1.IH"(2) [OF True refl m] m True show ?thesis
        by (subst scan.simps) (simp add: Let_def)
    qed
  qed
qed

lemma extract_samples_total: "\<exists>ss. extract_samples data = Some ss"
  unfolding extract_samples_def by (rule scan_total)

section \<open>The claims\<close>

subsection \<open>C1: the three-line scenario\<close>

text \<open>
  Claim C1. On the capture
  \<open>["42AAAACAFEBABE", "44BBBBFFFFFFFFFFFF", "44CCCCC20012340000FFFFFFFFFFFF"]\<close> the header
  channel accumulates \<open>CAFEBABE\<close>; the body channel decodes to the 18 bytes
  \<open>FF\<times>6 C2 00 12 34 00 00 FF\<times>6\<close>; segmentation of those bytes yields exactly the one
  block \<open>C2 00 12 34 00 00\<close> (also as the result of \<open>parse_dump\<close> as a whole); and sample
  extraction on that block yields exactly one sample, with offset 0, marker \<open>c200\<close>, raw
  value 13330 = 0x3412 and scaled value 133.30 (the exact quotient 13330 / 100).
\<close>

theorem scenario_pipeline:
  "header_hex (demux [''42AAAACAFEBABE'', ''44BBBBFFFFFFFFFFFF'',
       ''44CCCCC20012340000FFFFFFFFFFFF'']) = ''CAFEBABE'' \<and>
   unhexlify (body_hex (demux [''42AAAACAFEBABE'', ''44BBBBFFFFFFFFFFFF'',
       ''44CCCCC20012340000FFFFFFFFFFFF''])) =
     Inr [0xFF, 0xFF, 0xFF, 0xFF, 0xFF, 0xFF, 0xC2, 0x00, 0x12, 0x34, 0x00, 0x00,
          0xFF, 0xFF, 0xFF, 0xFF, 0xFF, 0xFF] \<and>
   segment [0xFF, 0xFF, 0xFF, 0xFF, 0xFF, 0xFF, 0xC2, 0x00, 0x12, 0x34, 0x00, 0x00,
          0xFF, 0xFF, 0xFF, 0xFF, 0xFF, 0xFF] = [[0xC2, 0x00, 0x12, 0x34, 0x00, 0x00]] \<and>
   parse_dump [''42AAAACAFEBABE'', ''44BBBBFFFFFFFFFFFF'',
       ''44CCCCC20012340000FFFFFFFFFFFF''] =
     (''CAFEBABE'', Inr [[0xC2, 0x00, 0x12, 0x34, 0x00, 0x00]]) \<and>
   extract_samples [0xC2, 0x00, 0x12, 0x34, 0x00, 0x00] =
     Some [\<lparr>offset = 0, marker = ''c200'', raw_val = 13330, depth_m = 133.30\<rparr>] \<and>
   (13330 :: nat) = 0x3412"
proof -
  have d: "demux [''42AAAACAFEBABE'', ''44BBBBFFFFFFFFFFFF'',
       ''44CCCCC20012340000FFFFFFFFFFFF'']
      = \<lparr>header_hex = ''CAFEBABE'', body_hex = ''FFFFFFFFFFFFC20012340000FFFFFFFFFFFF''\<rparr>"
    by (simp add: demux_def demux_step_def strip_def isspace_def slice_def Let_def)
  have u: "unhexlify ''FFFFFFFFFFFFC20012340000FFFFFFFFFFFF'' =
      Inr [0xFF, 0xFF, 0xFF, 0xFF, 0xFF, 0xFF, 0xC2, 0x00, 0x12, 0x34, 0x00, 0x00,
          0xFF, 0xFF, 0xFF, 0xFF, 0xFF, 0xFF]"
    by (simp add: unhexlify_def hex_val_def)
  have e: "extract_samples [0xC2, 0x00, 0x12, 0x34, 0x00, 0x00] =
     Some [\<lparr>offset = 0, marker = ''c200'', raw_val = 13330, depth_m = 133.30\<rparr>]"
    by (simp add: extract_samples_def scan.simps slice_def unpack_H_def hex_def hex_byte_def
        hex_digit_def)
  show ?thesis by (simp add: d u segment_scenario e parse_dump_def)
qed

subsection \<open>C2: the blocks are the maximal non-filler runs\<close>

text \<open>
  Claim C2. For every input byte sequence, every block the segmenter emits is non-empty and
  is a contiguous slice \<open>bs[6i:6j]\<close> of the input made of the windows \<open>i, \<dots>, j - 1\<close>, none
  of which equals the 6-byte filler (and the run is maximal); the bytes keep their order:
  the blocks, one after the other, are exactly the non-filler windows in input order; and
  the number of blocks is the number of maximal runs of consecutive non-filler windows.
\<close>

theorem segment_blocks_are_maximal_runs:
  "(\<forall>B \<in> set (segment bs).
      B \<noteq> [] \<and> (\<exists>i j. maximal_run (windows bs) i j \<and> B = slice bs (6 * i) (6 * j))) \<and>
   concat (segment bs) = concat (filter (\<lambda>w. w \<noteq> FILLER) (windows bs)) \<and>
   length (segment bs) = card (run_starts (windows bs))"
proof (intro conjI ballI)
  fix B assume B: "B \<in> set (segment bs)"
  from segment_blocks [OF B] obtain i j where
    run: "maximal_run (windows bs) i j" and eq: "B = concat (slice (windows bs) i j)" by blast
  from run have ij: "i < j" "j \<le> length (windows bs)" by (simp_all add: maximal_run_def)
  then have "windows bs ! i \<in> set (windows bs)" by simp
  then have "windows bs ! i \<noteq> []" by (rule windows_nonempty)
  with eq show "B \<noteq> []" by (simp add: slice_Cons_nth [OF ij])
  from run eq show "\<exists>i j. maximal_run (windows bs) i j \<and> B = slice bs (6 * i) (6 * j)"
    unfolding concat_slice_windows by blast
next
  show "concat (segment bs) = concat (filter (\<lambda>w. w \<noteq> FILLER) (windows bs))"
    using block_bytes [of "windows bs"] idle_current_Nil [of "windows bs"]
    by (cases "in_data (foldl win_step seg_init (windows bs))") (simp_all add: segment_fold)
next
  show "length (segment bs) = card (run_starts (windows bs))"
    using block_count [of "windows bs"]
    by (cases "in_data (foldl win_step seg_init (windows bs))") (simp_all add: segment_fold)
qed

text \<open>The invariant at the scenario's body bytes: one block, one run.\<close>

theorem segment_blocks_are_maximal_runs_witness:
  "segment [0xFF, 0xFF, 0xFF, 0xFF, 0xFF, 0xFF, 0xC2, 0x00, 0x12, 0x34, 0x00, 0x00,
          0xFF, 0xFF, 0xFF, 0xFF, 0xFF, 0xFF] = [[0xC2, 0x00, 0x12, 0x34, 0x00, 0x00]] \<and>
   (\<exists>i j. maximal_run (windows [0xFF, 0xFF, 0xFF, 0xFF, 0xFF, 0xFF, 0xC2, 0x00, 0x12, 0x34,
          0x00, 0x00, 0xFF, 0xFF, 0xFF, 0xFF, 0xFF, 0xFF]) i j \<and>
      [0xC2, 0x00, 0x12, 0x34, 0x00, 0x00] =
        slice [0xFF, 0xFF, 0xFF, 0xFF, 0xFF, 0xFF, 0xC2, 0x00, 0x12, 0x34,
          0x00, 0x00, 0xFF, 0xFF, 0xFF, 0xFF, 0xFF, 0xFF :: byte] (6 * i) (6 * j)) \<and>
   card (run_starts (windows [0xFF, 0xFF, 0xFF, 0xFF, 0xFF, 0xFF, 0xC2, 0x00, 0x12, 0x34,
          0x00, 0x00, 0xFF, 0xFF, 0xFF, 0xFF, 0xFF, 0xFF])) = 1"
proof -
  note inv = segment_blocks_are_maximal_runs [of "[0xFF, 0xFF, 0xFF, 0xFF, 0xFF, 0xFF, 0xC2,
          0x00, 0x12, 0x34, 0x00, 0x00, 0xFF, 0xFF, 0xFF, 0xFF, 0xFF, 0xFF]",
          unfolded segment_scenario]
  from inv [THEN conjunct1] have "\<exists>i j. maximal_run (windows [0xFF, 0xFF, 0xFF, 0xFF, 0xFF,
          0xFF, 0xC2, 0x00, 0x12, 0x34, 0x00, 0x00, 0xFF, 0xFF, 0xFF, 0xFF, 0xFF, 0xFF]) i j \<and>
      [0xC2, 0x00, 0x12, 0x34, 0x00, 0x00] =
        slice [0xFF, 0xFF, 0xFF, 0xFF, 0xFF, 0xFF, 0xC2, 0x00, 0x12, 0x34,
          0x00, 0x00, 0xFF, 0xFF, 0xFF, 0xFF, 0xFF, 0xFF :: byte] (6 * i) (6 * j)"
    by simp
  moreover from inv [THEN conjunct2, THEN conjunct2]
  have "card (run_starts (windows [0xFF, 0xFF, 0xFF, 0xFF, 0xFF, 0xFF, 0xC2, 0x00, 0x12, 0x34,
          0x00, 0x00, 0xFF, 0xFF, 0xFF, 0xFF, 0xFF, 0xFF])) = 1"
    by simp
  ultimately show ?thesis by (simp add: segment_scenario)
qed

subsection \<open>C3: re-segmenting a block\<close>

text \<open>
  Claim C3. For every input byte sequence and every block \<open>B\<close> the segmenter emits on it,
  segmenting \<open>B\<close> yields exactly the one-element list \<open>[B]\<close>.
\<close>

theorem segment_idempotent_on_block: "B \<in> set (segment bs) \<Longrightarrow> segment B = [B]"
proof -
  assume B: "B \<in> set (segment bs)"
  from segment_blocks [OF B] obtain i j where
    run: "maximal_run (windows bs) i j" and eq: "B = concat (slice (windows bs) i j)" by blast
  from run have ij: "i < j" "j \<le> length (windows bs)"
    and nf: "\<forall>k \<in> {i..<j}. windows bs ! k \<noteq> FILLER" by (simp_all add: maximal_run_def)
  from eq have "B = slice bs (6 * i) (6 * j)" by (simp only: concat_slice_windows)
  then have w: "windows B = slice (windows bs) i j" by (simp only: slice_windows)
  have "\<forall>w \<in> set (windows B). w \<noteq> FILLER"
    unfolding w
  proof
    fix x assume "x \<in> set (slice (windows bs) i j)"
    from in_set_slice [OF this ij(2)] nf show "x \<noteq> FILLER" by auto
  qed
  moreover have "B \<noteq> []"
    using w slice_Cons_nth [OF ij] by (auto simp: windows_Nil)
  ultimately show ?thesis by (simp add: segment_no_filler)
qed

theorem segment_idempotent_on_block_witness:
  "[0xC2, 0x00, 0x12, 0x34, 0x00, 0x00] \<in> set (segment [0xFF, 0xFF, 0xFF, 0xFF, 0xFF, 0xFF,
       0xC2, 0x00, 0x12, 0x34, 0x00, 0x00, 0xFF, 0xFF, 0xFF, 0xFF, 0xFF, 0xFF]) \<and>
   segment [0xC2, 0x00, 0x12, 0x34, 0x00, 0x00] = [[0xC2, 0x00, 0x12, 0x34, 0x00, 0x00]]"
proof -
  have h: "[0xC2, 0x00, 0x12, 0x34, 0x00, 0x00] \<in> set (segment [0xFF, 0xFF, 0xFF, 0xFF, 0xFF,
       0xFF, 0xC2, 0x00, 0x12, 0x34, 0x00, 0x00, 0xFF, 0xFF, 0xFF, 0xFF, 0xFF, 0xFF])"
    by (simp add: segment_scenario)
  from segment_idempotent_on_block [OF h] h show ?thesis by simp
qed

subsection \<open>C4: channel text and decoded bytes\<close>

text \<open>
  The claim as stated has the factor the wrong way round: the one frame
  \<open>44AAAACAFEBABE\<close> routes the 8 hex characters \<open>CAFEBABE\<close> to the body channel, which
  decodes to 4 bytes, not to 16.
\<close>

theorem channel_bytes_twice_hex_counterexample:
  "unhexlify (body_hex (demux [''44AAAACAFEBABE''])) = Inr [0xCA, 0xFE, 0xBA, 0xBE] \<and>
   concat (routed ''44'' [''44AAAACAFEBABE'']) = ''CAFEBABE'' \<and>
   length [0xCA, 0xFE, 0xBA, 0xBE :: byte] \<noteq> 2 * length ''CAFEBABE''"
  by (simp add: demux_def demux_step_def routed_def strip_def isspace_def slice_def Let_def
      unhexlify_def hex_val_def)

text \<open>
  Claim C4, amended. For every capture input, each channel's accumulated text is the
  concatenation, in frame order, of the payloads of the frames routed to it; whenever that
  text decodes, its number of hex characters is twice the number of decoded bytes; and
  when every routed payload decodes on its own, decoding the concatenated text gives the
  concatenation of the payloads' bytes in frame order. Decoding inverts hex encoding (in
  either letter case), so payloads that encode byte sequences are reconstructed exactly.
\<close>

theorem channel_hex_roundtrip:
  "header_hex (demux lines) = concat (routed ''42'' lines) \<and>
   body_hex (demux lines) = concat (routed ''44'' lines) \<and>
   (\<forall>bs. unhexlify (concat (routed cmd lines)) = Inr bs \<longrightarrow>
      length (concat (routed cmd lines)) = 2 * length bs) \<and>
   (list_all2 (\<lambda>p b. unhexlify p = Inr b) (routed cmd lines) payload_bytes \<longrightarrow>
      unhexlify (concat (routed cmd lines)) = Inr (concat payload_bytes)) \<and>
   unhexlify (hex data) = Inr data \<and> unhexlify (upper (hex data)) = Inr data"
  using demux_routed [of lines]
  by (simp add: unhexlify_length unhexlify_concat unhexlify_hex unhexlify_upper_hex)

theorem channel_hex_roundtrip_witness:
  "list_all2 (\<lambda>p b. unhexlify p = Inr b)
     (routed ''42'' [''42AAAACAFEBABE'', ''44BBBBFFFFFFFFFFFF'', ''42CCCC0102''])
     [[0xCA, 0xFE, 0xBA, 0xBE], [0x01, 0x02]] \<and>
   header_hex (demux [''42AAAACAFEBABE'', ''44BBBBFFFFFFFFFFFF'', ''42CCCC0102'']) =
     ''CAFEBABE0102'' \<and>
   unhexlify ''CAFEBABE0102'' = Inr [0xCA, 0xFE, 0xBA, 0xBE, 0x01, 0x02] \<and>
   length ''CAFEBABE0102'' = 2 * length [0xCA, 0xFE, 0xBA, 0xBE, 0x01, 0x02 :: byte]"
proof -
  have r: "routed ''42'' [''42AAAACAFEBABE'', ''44BBBBFFFFFFFFFFFF'', ''42CCCC0102''] =
      [''CAFEBABE'', ''0102'']"
    by (simp add: routed_def strip_def isspace_def slice_def)
  have h: "list_all2 (\<lambda>p b. unhexlify p = Inr b)
     (routed ''42'' [''42AAAACAFEBABE'', ''44BBBBFFFFFFFFFFFF'', ''42CCCC0102''])
     [[0xCA, 0xFE, 0xBA, 0xBE], [0x01, 0x02]]"
    unfolding r by (simp add: unhexlify_def hex_val_def)
  from channel_hex_roundtrip [of "[''42AAAACAFEBABE'', ''44BBBBFFFFFFFFFFFF'', ''42CCCC0102'']"
      "''42''" "[[0xCA, 0xFE, 0xBA, 0xBE], [0x01, 0x02]]"] h
  show ?thesis unfolding r by simp
qed

subsection \<open>C5: input without filler windows\<close>

text \<open>
  The empty input has no window at all, hence no filler window, and the segmenter emits
  no block for it (the final \<open>if current_chunk\<close> guards the append), not the one empty
  block the claim asks for.
\<close>

theorem segment_empty_input_counterexample:
  "windows ([] :: byte list) = [] \<and> segment [] = [] \<and> segment [] \<noteq> [[]]"
  by (simp add: windows_Nil segment_Nil)

text \<open>
  Claim C5, amended. For every non-empty byte sequence none of whose windows equals the
  6-byte filler, the segmenter yields exactly one block, equal to the whole input; for the
  empty sequence it yields no block.
\<close>

theorem segment_without_filler:
  "(bs \<noteq> [] \<and> (\<forall>w \<in> set (windows bs). w \<noteq> FILLER) \<longrightarrow> segment bs = [bs]) \<and>
   segment [] = []"
  by (simp add: segment_no_filler segment_Nil)

theorem segment_without_filler_witness:
  "[1, 2, 3, 4, 5, 6, 7] \<noteq> ([] :: byte list) \<and>
   windows [1, 2, 3, 4, 5, 6, 7] = [[1, 2, 3, 4, 5, 6], [7]] \<and>
   [1, 2, 3, 4, 5, 6] \<noteq> FILLER \<and> [7] \<noteq> FILLER \<and>
   segment [1, 2, 3, 4, 5, 6, 7] = [[1, 2, 3, 4, 5, 6, 7]]"
proof -
  have w: "windows [1, 2, 3, 4, 5, 6, 7] = [[1, 2, 3, 4, 5, 6], [7]]"
    by code_simp
  have f: "[1, 2, 3, 4, 5, 6] \<noteq> FILLER" "[7] \<noteq> FILLER"
    by code_simp+
  from f have "\<forall>w \<in> set (windows [1, 2, 3, 4, 5, 6, 7]). w \<noteq> FILLER"
    unfolding w by simp
  with segment_without_filler [of "[1, 2, 3, 4, 5, 6, 7]"] w f show ?thesis by simp
qed

subsection \<open>C6: the short final window\<close>

text \<open>
  Claim C6. When the input length is not a multiple of 6, the last window \<open>tail\<close> is short;
  the loop's comparison of its hex text with \<open>FFFFFFFFFFFF\<close> fails whatever its bytes are,
  so the loop treats it as data: it appends \<open>tail\<close> to the current chunk (the open block,
  or the empty chunk when no block is open) and the final block is that chunk. Here \<open>st\<close>
  is the loop's state before the last window. In particular one filler window followed by
  \<open>k < 6\<close> bytes \<open>0xFF\<close> gives the single block of those \<open>k\<close> bytes.
\<close>

theorem short_final_window_is_data:
  "(length bs mod 6 \<noteq> 0 \<longrightarrow>
      (let n = 6 * (length bs div 6);
           tail = drop n bs;
           st = seg_loop (take n bs)
       in tail \<noteq> [] \<and> length tail < 6 \<and> windows bs = windows (take n bs) @ [tail] \<and>
          upper (hex tail) \<noteq> ''FFFFFFFFFFFF'' \<and>
          seg_loop bs = st\<lparr>in_data := True, current_chunk := current_chunk st @ tail\<rparr> \<and>
          segment bs = unique_data_chunks st @ [current_chunk st @ tail])) \<and>
   (0 < k \<and> k < 6 \<longrightarrow>
      segment (replicate 6 0xFF @ replicate k 0xFF) = [replicate k 0xFF])"
proof (intro conjI impI)
  assume m: "length bs mod 6 \<noteq> 0"
  define n where "n = 6 * (length bs div 6)"
  define tail where "tail = drop n bs"
  define st where "st = seg_loop (take n bs)"
  have len: "length bs = n + length bs mod 6" by (simp add: n_def)
  with m have t: "length tail = length bs mod 6" by (simp add: tail_def)
  with m have t1: "tail \<noteq> []" and t2: "length tail < 6" by auto
  from len have "length (take n bs) = n" by simp
  then have "length (take n bs) mod 6 = 0" by (simp add: n_def)
  from windows_append [OF this, of tail]
  have w: "windows bs = windows (take n bs) @ [tail]"
    using t1 t2 by (simp add: tail_def windows_short)
  from t2 have nf: "tail \<noteq> FILLER" by (auto simp: FILLER_def)
  then have h: "upper (hex tail) \<noteq> ''FFFFFFFFFFFF''" by (simp add: hex_chunk_filler)
  have l: "seg_loop bs = st\<lparr>in_data := True, current_chunk := current_chunk st @ tail\<rparr>"
    by (simp add: seg_loop_windows [of bs] w st_def seg_loop_windows [of "take n bs"]
        win_step_data [OF nf])
  with t1 have s: "segment bs = unique_data_chunks st @ [current_chunk st @ tail]"
    by (simp add: segment_def)
  from t1 t2 w h l s
  show "let n = 6 * (length bs div 6); tail = drop n bs; st = seg_loop (take n bs)
       in tail \<noteq> [] \<and> length tail < 6 \<and> windows bs = windows (take n bs) @ [tail] \<and>
          upper (hex tail) \<noteq> ''FFFFFFFFFFFF'' \<and>
          seg_loop bs = st\<lparr>in_data := True, current_chunk := current_chunk st @ tail\<rparr> \<and>
          segment bs = unique_data_chunks st @ [current_chunk st @ tail]"
    unfolding Let_def n_def [symmetric] tail_def [symmetric] st_def [symmetric] by blast
next
  assume k: "0 < k \<and> k < 6"
  let ?tail = "replicate k (0xFF :: byte)"
  have "length (replicate 6 (0xFF :: byte)) mod 6 = 0" by simp
  from windows_append [OF this, of ?tail] k
  have w: "windows (replicate 6 0xFF @ ?tail) = [FILLER, ?tail]"
    by (simp add: windows_short FILLER_def)
  from k have "?tail \<noteq> FILLER" by (auto simp: FILLER_def dest: arg_cong [where f = length])
  then show "segment (replicate 6 0xFF @ ?tail) = [?tail]"
    using k by (simp add: segment_fold w win_step_filler win_step_data seg_init_def)
qed

theorem short_final_window_is_data_witness:
  "length [0xFF, 0xFF, 0xFF, 0xFF, 0xFF, 0xFF, 0xFF, 0xFF :: byte] mod 6 \<noteq> 0 \<and>
   (0 :: nat) < 2 \<and> (2 :: nat) < 6 \<and>
   windows [0xFF, 0xFF, 0xFF, 0xFF, 0xFF, 0xFF, 0xFF, 0xFF] =
     windows [0xFF, 0xFF, 0xFF, 0xFF, 0xFF, 0xFF] @ [[0xFF, 0xFF]] \<and>
   upper (hex [0xFF, 0xFF]) \<noteq> ''FFFFFFFFFFFF'' \<and>
   segment (replicate 6 0xFF @ replicate 2 0xFF) = [replicate 2 0xFF]"
  using short_final_window_is_data [of "[0xFF, 0xFF, 0xFF, 0xFF, 0xFF, 0xFF, 0xFF, 0xFF]" 2]
  by (simp add: Let_def)

subsection \<open>C7: the scan's loop bound\<close>

text \<open>
  Claim C7 says that every offset at which a full 4-byte record fits is examined. The loop
  runs while \<open>i < len(data) - 4\<close>, so the offset \<open>len(data) - 4\<close>, where a record still
  fits, is never examined: a block that is exactly one record yields no sample, and of the
  two records \<open>C2 00 DA 04 C2 00 28 05\<close> quoted in the source only the first is found.
\<close>

theorem scan_skips_last_record:
  "extract_samples [0xC2, 0x00, 0x12, 0x34] = Some [] \<and>
   extract_samples [0xC2, 0x00, 0xDA, 0x04, 0xC2, 0x00, 0x28, 0x05] =
     Some [\<lparr>offset = 0, marker = ''c200'', raw_val = 1242, depth_m = 12.42\<rparr>]"
  by (simp add: extract_samples_def scan.simps slice_def unpack_H_def hex_def hex_byte_def
        hex_digit_def)

subsection \<open>C8: failure of the materialization\<close>

text \<open>
  Claim C8. Decoding a channel's text fails exactly when the text has odd length or
  contains a character that is not a hex digit; a failure carries no bytes (the result is
  the error alone, an odd-length text is never cut to an even one), \<open>parse_dump\<close> then
  produces no blocks, and the header text it reports is the demultiplexer's header channel
  whether or not the body decodes. The second conjunct tells the two library exceptions
  apart: the failure is \<open>binascii.Error\<close>, which \<open>parse_dump\<close> catches and reports, when the
  text is ASCII, and \<open>ValueError\<close> when it is not.
\<close>

theorem materialization_failure:
  "((\<exists>e. unhexlify s = Inl e) \<longleftrightarrow> odd (length s) \<or> (\<exists>c \<in> set s. hex_val c = None)) \<and>
   (unhexlify s = Inl Binascii_Error \<longleftrightarrow>
      (\<forall>c \<in> set s. (of_char c :: nat) < 128) \<and>
      (odd (length s) \<or> (\<exists>c \<in> set s. hex_val c = None))) \<and>
   (\<forall>e. unhexlify (body_hex (demux lines)) = Inl e \<longrightarrow>
      parse_dump lines = (header_hex (demux lines), Inl e)) \<and>
   fst (parse_dump lines) = header_hex (demux lines)"
  using unhexlify_fails_iff [of s] unhexlify_Binascii_Error [of s]
  by (simp add: parse_dump_def Let_def)

theorem materialization_failure_witness:
  "odd (length ''ABCDE'') \<and> (\<exists>e. unhexlify ''ABCDE'' = Inl e) \<and>
   unhexlify (body_hex (demux [''42AAAACAFE'', ''44AAAAABCDE''])) = Inl Binascii_Error \<and>
   parse_dump [''42AAAACAFE'', ''44AAAAABCDE''] = (''CAFE'', Inl Binascii_Error)"
proof -
  have d: "demux [''42AAAACAFE'', ''44AAAAABCDE''] =
      \<lparr>header_hex = ''CAFE'', body_hex = ''ABCDE''\<rparr>"
    by (simp add: demux_def demux_step_def strip_def isspace_def slice_def Let_def)
  have u: "unhexlify ''ABCDE'' = Inl Binascii_Error"
    by (simp add: unhexlify_def)
  have o: "odd (length ''ABCDE'')" by simp
  from materialization_failure [of "''ABCDE''" "[''42AAAACAFE'', ''44AAAAABCDE'']"] o u
  show ?thesis unfolding d by simp
qed

subsection \<open>C9: the minimum frame length\<close>

text \<open>
  The 8-character line \<open>4200AABB\<close> is dropped, not treated as a frame; the length check is
  made on the stripped line (the same text padded with blanks to 12 characters is dropped
  too); and a 10-character line contributes its last 4 characters, not an empty payload.
\<close>

theorem short_line_is_frame_counterexample:
  "demux [''4200AABB''] = \<lparr>header_hex = [], body_hex = []\<rparr> \<and>
   length ''4200AABB    '' = 12 \<and>
   demux [''4200AABB    ''] = \<lparr>header_hex = [], body_hex = []\<rparr> \<and>
   length ''42AAAACAFE'' = 10 \<and>
   demux [''42AAAACAFE''] = \<lparr>header_hex = ''CAFE'', body_hex = []\<rparr>"
  by (simp add: demux_def demux_step_def strip_def isspace_def slice_def Let_def)

text \<open>
  Claim C9, amended. The minimum-length check (at least 10 characters) is applied to the
  line after stripping surrounding whitespace: any line whose stripped length is below 10,
  such as the 8-character \<open>4200AABB\<close> or any 9-character line, leaves both channels
  unchanged; a line whose stripped length is exactly 10 is accepted and appends its
  4-character payload to the header channel for command \<open>42\<close> and to the body channel for
  command \<open>44\<close>.
\<close>

theorem frame_length_boundary:
  "(length (strip raw1) < 10 \<longrightarrow> demux_step ch raw1 = ch) \<and>
   (length (strip raw2) = 10 \<and> slice (strip raw2) 0 2 = ''42'' \<longrightarrow>
      length (drop 6 (strip raw2)) = 4 \<and>
      demux_step ch raw2 = ch\<lparr>header_hex := header_hex ch @ drop 6 (strip raw2)\<rparr>) \<and>
   (length (strip raw3) = 10 \<and> slice (strip raw3) 0 2 = ''44'' \<longrightarrow>
      length (drop 6 (strip raw3)) = 4 \<and>
      demux_step ch raw3 = ch\<lparr>body_hex := body_hex ch @ drop 6 (strip raw3)\<rparr>)"
  by (simp add: demux_step_def Let_def)

theorem frame_length_boundary_witness:
  "length (strip ''4200AABB'') < 10 \<and>
   demux_step \<lparr>header_hex = [], body_hex = []\<rparr> ''4200AABB'' =
     \<lparr>header_hex = [], body_hex = []\<rparr> \<and>
   length (strip '' 42AAAACAFE  '') = 10 \<and> slice (strip '' 42AAAACAFE  '') 0 2 = ''42'' \<and>
   demux_step \<lparr>header_hex = [], body_hex = []\<rparr> '' 42AAAACAFE  '' =
     \<lparr>header_hex = ''CAFE'', body_hex = []\<rparr> \<and>
   length (strip ''44AAAA0102'') = 10 \<and> slice (strip ''44AAAA0102'') 0 2 = ''44'' \<and>
   demux_step \<lparr>header_hex = [], body_hex = []\<rparr> ''44AAAA0102'' =
     \<lparr>header_hex = [], body_hex = ''0102''\<rparr>"
proof -
  have s: "strip ''4200AABB'' = ''4200AABB''" "strip '' 42AAAACAFE  '' = ''42AAAACAFE''"
    "strip ''44AAAA0102'' = ''44AAAA0102''"
    by (simp_all add: strip_def isspace_def)
  from frame_length_boundary [of "''4200AABB''" "\<lparr>header_hex = [], body_hex = []\<rparr>"
      "'' 42AAAACAFE  ''" "''44AAAA0102''"]
  show ?thesis unfolding s by (simp add: slice_def)
qed

subsection \<open>C10: checksum and length fields\<close>

text \<open>
  Claim C10. The demultiplexer's output does not depend on the checksum and length fields:
  two captures with the same number of lines whose stripped lines pairwise have equal
  lengths and agree on the characters \<open>[0,2)\<close> (command) and \<open>[6..)\<close> (payload) give the
  same header and body accumulators.
\<close>

theorem demux_ignores_checksum_and_length:
  "list_all2 (\<lambda>a b. length (strip a) = length (strip b) \<and>
       slice (strip a) 0 2 = slice (strip b) 0 2 \<and> drop 6 (strip a) = drop 6 (strip b))
     lines1 lines2 \<Longrightarrow> demux lines1 = demux lines2"
proof -
  assume rel: "list_all2 (\<lambda>a b. length (strip a) = length (strip b) \<and>
       slice (strip a) 0 2 = slice (strip b) 0 2 \<and> drop 6 (strip a) = drop 6 (strip b))
     lines1 lines2"
  then have "foldl demux_step ch lines1 = foldl demux_step ch lines2" for ch
  proof (induction lines1 lines2 arbitrary: ch rule: list_all2_induct)
    case Nil
    show ?case by simp
  next
    case (Cons a as b bs)
    from Cons.hyps(1) have "demux_step ch a = demux_step ch b"
      by (intro demux_step_cong) simp_all
    with Cons.IH [of "demux_step ch b"] show ?case by simp
  qed
  then show ?thesis by (simp add: demux_def)
qed

theorem demux_ignores_checksum_and_length_witness:
  "list_all2 (\<lambda>a b. length (strip a) = length (strip b) \<and>
       slice (strip a) 0 2 = slice (strip b) 0 2 \<and> drop 6 (strip a) = drop 6 (strip b))
     [''42AAAACAFEBABE'', ''44BBBB0102''] [''42XYZWCAFEBABE'', ''44000F0102''] \<and>
   demux [''42AAAACAFEBABE'', ''44BBBB0102''] = demux [''42XYZWCAFEBABE'', ''44000F0102''] \<and>
   demux [''42XYZWCAFEBABE'', ''44000F0102''] =
     \<lparr>header_hex = ''CAFEBABE'', body_hex = ''0102''\<rparr>"
proof -
  have h: "list_all2 (\<lambda>a b. length (strip a) = length (strip b) \<and>
       slice (strip a) 0 2 = slice (strip b) 0 2 \<and> drop 6 (strip a) = drop 6 (strip b))
     [''42AAAACAFEBABE'', ''44BBBB0102''] [''42XYZWCAFEBABE'', ''44000F0102'']"
    by (simp add: strip_def isspace_def slice_def)
  have d: "demux [''42XYZWCAFEBABE'', ''44000F0102''] =
      \<lparr>header_hex = ''CAFEBABE'', body_hex = ''0102''\<rparr>"
    by (simp add: demux_def demux_step_def strip_def isspace_def slice_def Let_def)
  from demux_ignores_checksum_and_length [OF h] h d show ?thesis by simp
qed

end
